theory Spec2Isabelle
  imports Complex_Main "HOL-Library.Sublist"
begin

section \<open>The instance manager (instanceManager.js)\<close>

text \<open>
  The module keeps process-wide state: the Registry \<open>instances\<close> (a Map from instance id
  to client object), the map \<open>qrCodes\<close>, the array \<open>instanceQueue\<close> with its flag
  \<open>queueRunning\<close>, and the session directories on disk. Client objects are shared
  between the Registry and the event listeners that capture them, so they live in a
  store of references. Calls into the client library, the filesystem and the shell are
  recorded in an effect log; what those calls answer (events emitted, exceptions thrown)
  is an argument of each operation. Console output is left out.
\<close>

subsection \<open>Values, paths and the state\<close>

type_synonym instance_id = string
type_synonym ref = nat
type_synonym path = "string list"

datatype js_error = Error string

text \<open>What \<open>getStatus\<close> can hand back: \<open>null\<close>, \<open>undefined\<close> or a string.\<close>

datatype js_value = JNull | JUndefined | JString string

text \<open>
  The client's \<open>info\<close> object, as far as the module reads it. A field that is
  \<open>undefined\<close> is \<open>None\<close>.
\<close>

record client_info =
  wid :: "string option"
  number :: "string option"
  pushname :: "string option"
  profile_pic :: "string option"
  status :: "string option"

record client =
  boundId :: instance_id
  isInitializing :: bool
  info :: "client_info option"

datatype effect =
    Initialize ref
  | Destroy ref
  | Logout ref
  | DbUpdate instance_id string "string option" "string option" "string option"
  | FsRm path
  | Sleep int
  | Exec string
  | UnhandledRejection js_error

record manager =
  heap :: "ref \<Rightarrow> client"
  nextRef :: ref
  instances :: "instance_id \<rightharpoonup> ref"
  qrCodes :: "instance_id \<rightharpoonup> string"
  fs :: "path set"
  effects :: "effect list"

subsection \<open>Paths\<close>

text \<open>
  A path is the list of its segments below the filesystem root. \<open>path_join\<close> is
  \<open>path.join(base, s)\<close> for an absolute, normalised \<open>base\<close>: the string is cut at
  every slash, empty segments and \<open>.\<close> are dropped, and \<open>..\<close> steps up (the root is
  its own parent).
\<close>

primrec split_slash :: "string \<Rightarrow> string list" where
  "split_slash [] = [[]]"
| "split_slash (c # cs) =
     (if c = CHR ''/'' then [] # split_slash cs
      else (case split_slash cs of
              [] \<Rightarrow> [[c]]
            | seg # segs \<Rightarrow> (c # seg) # segs))"

definition norm_seg :: "path \<Rightarrow> string \<Rightarrow> path" where
  "norm_seg acc seg =
     (if seg = [] \<or> seg = ''.'' then acc
      else if seg = ''..'' then butlast acc
      else acc @ [seg])"

definition path_join :: "path \<Rightarrow> string \<Rightarrow> path" where
  "path_join base s = foldl norm_seg base (split_slash s)"

definition SESSIONS_PATH :: "path \<Rightarrow> path" where
  "SESSIONS_PATH appRoot = path_join appRoot ''.wwebjs_auth''"

definition CHROME_PROFILES_PATH :: "path \<Rightarrow> path" where
  "CHROME_PROFILES_PATH appRoot = path_join (SESSIONS_PATH appRoot) ''_chrome_profiles''"

subsection \<open>The filesystem calls\<close>

text \<open>
  \<open>fs.rmSync(p, {recursive: true, force: true})\<close> either removes \<open>p\<close> with everything
  below it, or throws (a file below \<open>p\<close> is locked by a browser process, say) after it
  has removed some entries strictly below \<open>p\<close>. Which of the two happens is not decided
  by the module: it is the argument \<open>out\<close>.
\<close>

datatype rm_outcome = RmOk | RmThrows js_error "path list"

definition existsSync :: "path \<Rightarrow> manager \<Rightarrow> bool" where
  "existsSync p s = (p \<in> fs s)"

definition rmTree :: "path \<Rightarrow> path set \<Rightarrow> path set" where
  "rmTree p files = Set.filter (\<lambda>q. \<not> prefix p q) files"

definition rmPartial :: "path \<Rightarrow> path list \<Rightarrow> path set \<Rightarrow> path set" where
  "rmPartial p gone files =
     Set.filter (\<lambda>q. \<not> (strict_prefix p q \<and> q \<in> set gone)) files"

definition rmSync :: "rm_outcome \<Rightarrow> path \<Rightarrow> manager \<Rightarrow> js_error option \<times> manager" where
  "rmSync out p s =
     (case out of
        RmOk \<Rightarrow> (None, s\<lparr>fs := rmTree p (fs s), effects := effects s @ [FsRm p]\<rparr>)
      | RmThrows e gone \<Rightarrow>
          (Some e, s\<lparr>fs := rmPartial p gone (fs s), effects := effects s @ [FsRm p]\<rparr>))"

definition delay :: "int \<Rightarrow> manager \<Rightarrow> manager" where
  "delay ms s = s\<lparr>effects := effects s @ [Sleep ms]\<rparr>"

subsection \<open>removeFolderWithRetries\<close>

text \<open>
  The body of the \<open>try\<close> block: \<open>if (fs.existsSync(p)) fs.rmSync(p, ...)\<close>. The result
  is the exception the \<open>catch\<close> clause receives, if any.
\<close>

definition tryRemove :: "rm_outcome \<Rightarrow> path \<Rightarrow> manager \<Rightarrow> js_error option \<times> manager" where
  "tryRemove out p s = (if existsSync p s then rmSync out p s else (None, s))"

text \<open>
  The \<open>while\<close> loop, started at a value of the counter \<open>attempts\<close>. \<open>rm n\<close> is what
  the call of \<open>rmSync\<close> made while \<open>attempts\<close> is \<open>n\<close> does.
\<close>

function removeFolderLoop ::
  "(nat \<Rightarrow> rm_outcome) \<Rightarrow> path \<Rightarrow> int \<Rightarrow> int \<Rightarrow> nat \<Rightarrow> manager \<Rightarrow> bool \<times> manager" where
  "removeFolderLoop rm p maxRetries delayMs attempts s =
     (if int attempts < maxRetries then
        (case tryRemove (rm attempts) p s of
           (None, s1) \<Rightarrow> (True, s1)
         | (Some e, s1) \<Rightarrow>
             (if int (Suc attempts) \<ge> maxRetries then (False, s1)
              else removeFolderLoop rm p maxRetries delayMs (Suc attempts) (delay delayMs s1)))
      else (False, s))"
  by pat_completeness auto
termination
  by (relation "measure (\<lambda>(rm, p, maxRetries, delayMs, attempts, s). nat (maxRetries - int attempts))")
     auto

definition removeFolderWithRetries ::
  "(nat \<Rightarrow> rm_outcome) \<Rightarrow> path \<Rightarrow> int \<Rightarrow> int \<Rightarrow> manager \<Rightarrow> bool \<times> manager" where
  "removeFolderWithRetries rm p maxRetries delayMs s = removeFolderLoop rm p maxRetries delayMs 0 s"

subsection \<open>Module start\<close>

text \<open>
  \<open>new Client(...)\<close> in \<open>createInstance\<close>: the flag \<open>isInitializing\<close> is set right
  after construction and \<open>info\<close> is not there yet. The listeners registered on the
  client capture the \<open>id\<close> of the call; \<open>boundId\<close> keeps it.
\<close>

definition newClient :: "instance_id \<Rightarrow> client" where
  "newClient i = \<lparr>boundId = i, isInitializing = True, info = None\<rparr>"

definition emptyManager :: "path set \<Rightarrow> manager" where
  "emptyManager files =
     \<lparr>heap = (\<lambda>r. newClient []), nextRef = 0, instances = Map.empty, qrCodes = Map.empty,
      fs = files, effects = []\<rparr>"

definition ensureDir :: "path \<Rightarrow> manager \<Rightarrow> manager" where
  "ensureDir dir s = (if existsSync dir s then s else s\<lparr>fs := fs s \<union> set (prefixes dir)\<rparr>)"

text \<open>Loading the module in directory \<open>appRoot\<close> on a disk that holds \<open>files\<close>.\<close>

definition loadModule :: "path \<Rightarrow> path set \<Rightarrow> manager" where
  "loadModule appRoot files =
     ensureDir (CHROME_PROFILES_PATH appRoot) (ensureDir (SESSIONS_PATH appRoot) (emptyManager files))"

subsection \<open>Status projection\<close>

text \<open>\<open>x || null\<close> on a string or \<open>undefined\<close>: the empty string is falsy.\<close>

definition orNull :: "string option \<Rightarrow> string option" where
  "orNull v = (case v of None \<Rightarrow> None | Some x \<Rightarrow> if x = [] then None else Some x)"

text \<open>The object \<open>{}\<close>.\<close>

definition noInfo :: client_info where
  "noInfo = \<lparr>wid = None, number = None, pushname = None, profile_pic = None, status = None\<rparr>"

text \<open>
  \<open>updateInstanceStatusInDb\<close> sends one UPDATE through \<open>safeQuery\<close>, which catches
  every database error.
\<close>

definition updateInstanceStatusInDb ::
  "instance_id \<Rightarrow> string \<Rightarrow> client_info \<Rightarrow> manager \<Rightarrow> manager" where
  "updateInstanceStatusInDb i st extra s =
     s\<lparr>effects := effects s @
        [DbUpdate i st (orNull (number extra)) (orNull (pushname extra)) (orNull (profile_pic extra))]\<rparr>"

subsection \<open>The listeners of createInstance\<close>

datatype event =
    Qr string
  | Ready
  | Authenticated
  | Disconnected string
  | Debug string
  | AuthFailure string

definition deregister :: "instance_id \<Rightarrow> manager \<Rightarrow> manager" where
  "deregister i s = s\<lparr>instances := (instances s)(i := None), qrCodes := (qrCodes s)(i := None)\<rparr>"

text \<open>
  The listener of \<open>ready\<close> clears \<open>isInitializing\<close> and then calls \<open>getInfo(id)\<close>.
  The module binds no variable of that name (\<open>getInfo\<close> is only a property of
  \<open>module.exports\<close>), so the call raises a ReferenceError inside the async listener:
  the status \<open>ready\<close> is never written and the rejection is handled by nobody.
\<close>

fun on_event :: "instance_id \<Rightarrow> ref \<Rightarrow> event \<Rightarrow> manager \<Rightarrow> manager" where
  "on_event i r (Qr qr) s =
     updateInstanceStatusInDb i ''qr'' noInfo (s\<lparr>qrCodes := (qrCodes s)(i \<mapsto> qr)\<rparr>)"
| "on_event i r Ready s =
     s\<lparr>heap := (heap s)(r := (heap s r)\<lparr>isInitializing := False\<rparr>),
       effects := effects s @ [UnhandledRejection (Error ''getInfo is not defined'')]\<rparr>"
| "on_event i r Authenticated s = updateInstanceStatusInDb i ''authenticated'' noInfo s"
| "on_event i r (Disconnected reason) s =
     deregister i (updateInstanceStatusInDb i ''disconnected'' noInfo s)"
| "on_event i r (Debug msg) s = s"
| "on_event i r (AuthFailure msg) s =
     deregister i (updateInstanceStatusInDb i ''auth_failure'' noInfo s)"

text \<open>
  What the client library does to a client while one of its calls is pending: it
  assigns the client's \<open>info\<close> field, or it emits an event, which runs the listener
  registered on that client.
\<close>

datatype lib_step = SetInfo "client_info option" | Emit event

fun run_step :: "ref \<Rightarrow> lib_step \<Rightarrow> manager \<Rightarrow> manager" where
  "run_step r (SetInfo v) s = s\<lparr>heap := (heap s)(r := (heap s r)\<lparr>info := v\<rparr>)\<rparr>"
| "run_step r (Emit ev) s = on_event (boundId (heap s r)) r ev s"

fun run_steps :: "ref \<Rightarrow> lib_step list \<Rightarrow> manager \<Rightarrow> manager" where
  "run_steps r [] s = s"
| "run_steps r (st # sts) s = run_steps r sts (run_step r st s)"

text \<open>
  The answer of an asynchronous call into the client library: what the library did
  while the call was pending, and the exception it ended with, if any.
\<close>

record call_result =
  emitted :: "lib_step list"
  thrown :: "js_error option"

definition client_initialize :: "ref \<Rightarrow> call_result \<Rightarrow> manager \<Rightarrow> js_error option \<times> manager" where
  "client_initialize r res s =
     (thrown res, run_steps r (emitted res) (s\<lparr>effects := effects s @ [Initialize r]\<rparr>))"

definition client_destroy :: "ref \<Rightarrow> call_result \<Rightarrow> manager \<Rightarrow> js_error option \<times> manager" where
  "client_destroy r res s =
     (thrown res, run_steps r (emitted res) (s\<lparr>effects := effects s @ [Destroy r]\<rparr>))"

definition execSync :: "string \<Rightarrow> js_error option \<Rightarrow> manager \<Rightarrow> js_error option \<times> manager" where
  "execSync cmd res s = (res, s\<lparr>effects := effects s @ [Exec cmd]\<rparr>)"

subsection \<open>createInstance\<close>

text \<open>
  \<open>ctor\<close> is the exception of the constructor calls (\<open>new Client\<close>, \<open>new LocalAuth\<close>),
  which stand outside the \<open>try\<close> block; \<open>init\<close> is the answer of
  \<open>client.initialize()\<close>. The result is the value the returned promise settles with:
  \<open>Inl\<close> a rejection, \<open>Inr\<close> the client.
\<close>

definition createInstance ::
  "instance_id \<Rightarrow> js_error option \<Rightarrow> call_result \<Rightarrow> manager \<Rightarrow> (js_error + ref) \<times> manager" where
  "createInstance i ctor init s =
     (case instances s i of
        Some r \<Rightarrow> (Inr r, s)
      | None \<Rightarrow>
          (case ctor of
             Some e \<Rightarrow> (Inl e, s)
           | None \<Rightarrow>
               (let r = nextRef s;
                    s1 = s\<lparr>heap := (heap s)(r := newClient i), nextRef := Suc r\<rparr>;
                    (err, s2) = client_initialize r init s1;
                    s3 = (case err of
                            None \<Rightarrow> s2
                          | Some e \<Rightarrow> deregister i (updateInstanceStatusInDb i ''error'' noInfo s2))
                in (Inr r, s3\<lparr>instances := (instances s3)(i \<mapsto> r)\<rparr>))))"

subsection \<open>resetInstance\<close>

definition pkillCommand :: "instance_id \<Rightarrow> string" where
  "pkillCommand i = ''pkill -f '' @ [CHR 0x22] @ ''chrome.*'' @ i @ [CHR 0x22] @ '' || true''"

text \<open>
  The function that \<open>resetInstance\<close> puts on the queue, run from start to end with no
  other operation in between. Both \<open>catch\<close> clauses are empty, so the exceptions of
  \<open>client.destroy()\<close> and of \<open>execSync\<close> are dropped; the function has no \<open>return\<close>,
  so its promise fulfils with \<open>undefined\<close>.
\<close>

definition resetOp ::
  "path \<Rightarrow> instance_id \<Rightarrow> call_result \<Rightarrow> (nat \<Rightarrow> rm_outcome) \<Rightarrow> js_error option \<Rightarrow> manager
     \<Rightarrow> (js_error + js_value) \<times> manager" where
  "resetOp appRoot i destroy rm pkill s =
     (let s1 = (case instances s i of
                  Some r \<Rightarrow>
                    (let (err, s') = client_destroy r destroy s
                     in s'\<lparr>instances := (instances s')(i := None)\<rparr>)
                | None \<Rightarrow> s);
          s2 = s1\<lparr>qrCodes := (qrCodes s1)(i := None)\<rparr>;
          profilePath = path_join (CHROME_PROFILES_PATH appRoot) i;
          (removed, s3) = removeFolderWithRetries rm profilePath 5 1000 s2;
          (err, s4) = execSync (pkillCommand i) pkill s3
      in (Inr JUndefined, s4))"

text \<open>
  The directory in which the \<open>LocalAuth\<close> strategy of \<open>createInstance\<close>
  (\<open>clientId: id, dataPath: SESSIONS_PATH\<close>) keeps the credentials of an instance.
\<close>

definition authDir :: "path \<Rightarrow> instance_id \<Rightarrow> path" where
  "authDir appRoot i = path_join (SESSIONS_PATH appRoot) (''session-'' @ i)"

subsection \<open>The reads\<close>

definition getStatus :: "instance_id \<Rightarrow> manager \<Rightarrow> js_value" where
  "getStatus i s =
     (case instances s i of
        None \<Rightarrow> JNull
      | Some r \<Rightarrow>
          (case info (heap s r) of
             None \<Rightarrow> JUndefined
           | Some ci \<Rightarrow> (case status ci of None \<Rightarrow> JUndefined | Some st \<Rightarrow> JString st)))"

definition getInfo :: "instance_id \<Rightarrow> manager \<Rightarrow> client_info" where
  "getInfo i s =
     (case instances s i of
        None \<Rightarrow> noInfo
      | Some r \<Rightarrow> (case info (heap s r) of None \<Rightarrow> noInfo | Some ci \<Rightarrow> ci))"

definition getQRCode :: "instance_id \<Rightarrow> manager \<Rightarrow> string option" where
  "getQRCode i s = qrCodes s i"

subsection \<open>canCreateInstance\<close>

text \<open>
  \<open>cpuPercent\<close> is the fraction that \<open>os.cpuUsage\<close> hands to its callback. Numbers are
  real numbers here: the rounding of doubles is left out. A division by zero gives
  \<open>NaN\<close> or an infinity in JavaScript; \<open>NaN > x\<close> and \<open>-Infinity > x\<close> are false and
  \<open>Infinity > x\<close> is true.
\<close>

definition ramOverLimit :: "real \<Rightarrow> real \<Rightarrow> real \<Rightarrow> bool" where
  "ramOverLimit totalMem freeMem maxRamPercent =
     (if totalMem = 0 then freeMem < 0
      else ((totalMem - freeMem) / totalMem) * 100 > maxRamPercent)"

definition canCreateInstance :: "real \<Rightarrow> real \<Rightarrow> real \<Rightarrow> real \<Rightarrow> real \<Rightarrow> bool" where
  "canCreateInstance cpuPercent totalMem freeMem maxCpu maxRamPercent =
     (\<not> (cpuPercent * 100 > maxCpu \<or> ramOverLimit totalMem freeMem maxRamPercent))"

subsection \<open>The operation queue\<close>

datatype settlement = Fulfilled js_value | Rejected js_error

text \<open>
  The \<open>try\<close>/\<open>catch\<close> of \<open>processQueue\<close>: \<open>resolve(result)\<close> when \<open>fn()\<close> fulfils,
  \<open>reject(err)\<close> when it throws or rejects.
\<close>

definition settle :: "js_error + js_value \<Rightarrow> settlement" where
  "settle res = (case res of Inr v \<Rightarrow> Fulfilled v | Inl e \<Rightarrow> Rejected e)"

text \<open>
  One turn of the \<open>while\<close> loop on an entry whose function is \<open>fn\<close>: the promise of the
  entry is settled, then the loop sleeps 500 ms.
\<close>

definition runEntry ::
  "(manager \<Rightarrow> (js_error + js_value) \<times> manager) \<Rightarrow> manager \<Rightarrow> settlement \<times> manager" where
  "runEntry fn s = (case fn s of (res, s1) \<Rightarrow> (settle res, delay 500 s1))"

text \<open>
  The queue under interleaving. Entries are named by their number of submission. An
  invocation of \<open>processQueue\<close> that has passed the guard is suspended either at
  \<open>await fn()\<close> of an entry or at \<open>await delay(500)\<close>, where it holds the time at which
  its timer is due; \<open>loops\<close> lists the suspended invocations. The clock counts
  milliseconds. \<open>begun\<close> and \<open>settled\<close> record when \<open>fn()\<close> of an entry was called and
  when, and how, its promise was settled.
\<close>

datatype loop_pc = AwaitFn nat | AwaitDelay nat

record queue_state =
  instanceQueue :: "nat list"
  queueRunning :: bool
  loops :: "loop_pc list"
  submitted :: nat
  clock :: nat
  begun :: "nat \<rightharpoonup> nat"
  settled :: "nat \<rightharpoonup> settlement \<times> nat"

definition initialQueue :: queue_state where
  "initialQueue =
     \<lparr>instanceQueue = [], queueRunning = False, loops = [], submitted = 0, clock = 0,
      begun = Map.empty, settled = Map.empty\<rparr>"

text \<open>
  The loop from its \<open>while\<close> test up to the next \<open>await\<close>: with an entry waiting it
  shifts the entry and calls its function; with none it clears the flag and ends.
\<close>

definition loop_head :: "queue_state \<Rightarrow> queue_state" where
  "loop_head q =
     (case instanceQueue q of
        [] \<Rightarrow> q\<lparr>queueRunning := False\<rparr>
      | e # rest \<Rightarrow>
          q\<lparr>instanceQueue := rest, begun := (begun q)(e \<mapsto> clock q),
            loops := loops q @ [AwaitFn e]\<rparr>)"

definition processQueue :: "queue_state \<Rightarrow> queue_state" where
  "processQueue q = (if queueRunning q then q else loop_head (q\<lparr>queueRunning := True\<rparr>))"

definition enqueue :: "queue_state \<Rightarrow> queue_state" where
  "enqueue q =
     processQueue (q\<lparr>instanceQueue := instanceQueue q @ [submitted q], submitted := Suc (submitted q)\<rparr>)"

text \<open>
  What can happen next: a caller submits an entry; time passes; the function of the
  entry a loop waits for settles with \<open>res\<close>, and the loop settles the promise and
  starts its timer; a timer that is due fires, and its loop goes on. A timer set for
  500 ms does not fire before 500 ms have passed.
\<close>

datatype action =
    Submit
  | Elapse nat
  | FnSettles nat "js_error + js_value"
  | TimerFires nat

fun step :: "action \<Rightarrow> queue_state \<Rightarrow> queue_state option" where
  "step Submit q = Some (enqueue q)"
| "step (Elapse d) q = Some (q\<lparr>clock := clock q + d\<rparr>)"
| "step (FnSettles e res) q =
     (if AwaitFn e \<in> set (loops q)
      then Some (q\<lparr>settled := (settled q)(e \<mapsto> (settle res, clock q)),
                  loops := remove1 (AwaitFn e) (loops q) @ [AwaitDelay (clock q + 500)]\<rparr>)
      else None)"
| "step (TimerFires t) q =
     (if AwaitDelay t \<in> set (loops q) \<and> t \<le> clock q
      then Some (loop_head (q\<lparr>loops := remove1 (AwaitDelay t) (loops q)\<rparr>))
      else None)"

fun run :: "action list \<Rightarrow> queue_state \<Rightarrow> queue_state option" where
  "run [] q = Some q"
| "run (a # as) q = (case step a q of None \<Rightarrow> None | Some q' \<Rightarrow> run as q')"

subsection \<open>An invariant of the queue\<close>

text \<open>
  \<open>nextUp\<close> is the number of the entry that will be shifted next: the entries below it
  have been started, the others wait in \<open>instanceQueue\<close>. \<open>cooled q n t\<close> says that the
  promise of every entry below \<open>n\<close> was settled at least 500 ms before time \<open>t\<close>.
\<close>

definition nextUp :: "queue_state \<Rightarrow> nat" where
  "nextUp q = submitted q - length (instanceQueue q)"

definition cooled :: "queue_state \<Rightarrow> nat \<Rightarrow> nat \<Rightarrow> bool" where
  "cooled q n t = (\<forall>a<n. \<exists>out ta. settled q a = Some (out, ta) \<and> ta + 500 \<le> t)"

fun loop_inv :: "queue_state \<Rightarrow> loop_pc list \<Rightarrow> bool" where
  "loop_inv q [] = (\<not> queueRunning q \<and> instanceQueue q = [] \<and> cooled q (nextUp q) (clock q))"
| "loop_inv q [AwaitFn e] = (queueRunning q \<and> nextUp q = Suc e)"
| "loop_inv q [AwaitDelay t] = (queueRunning q \<and> cooled q (nextUp q) t)"
| "loop_inv q (x # y # zs) = False"

definition qinv :: "queue_state \<Rightarrow> bool" where
  "qinv q =
     (length (instanceQueue q) \<le> submitted q \<and>
      instanceQueue q = [nextUp q ..< submitted q] \<and>
      (\<forall>b. (begun q b \<noteq> None) = (b < nextUp q)) \<and>
      (\<forall>b tb. begun q b = Some tb \<longrightarrow> tb \<le> clock q \<and> cooled q b tb) \<and>
      loop_inv q (loops q))"

section \<open>Properties\<close>

subsection \<open>The retry loop\<close>

lemma tryRemove_Some:
  "tryRemove out p s = (Some e, s1) \<Longrightarrow>
     p \<in> fs s \<and> p \<in> fs s1 \<and> out \<noteq> RmOk \<and> effects s1 = effects s @ [FsRm p]"
  by (auto simp: tryRemove_def existsSync_def rmSync_def rmPartial_def
           split: if_splits rm_outcome.splits)

lemma tryRemove_None:
  "tryRemove out p s = (None, s1) \<Longrightarrow>
     p \<notin> fs s1 \<and> (p \<in> fs s \<longrightarrow> out = RmOk) \<and>
     effects s1 = effects s @ (if p \<in> fs s then [FsRm p] else [])"
  by (auto simp: tryRemove_def existsSync_def rmSync_def rmTree_def
           split: if_splits rm_outcome.splits)

lemma tryRemove_absent: "p \<notin> fs s \<Longrightarrow> tryRemove out p s = (None, s)"
  by (simp add: tryRemove_def existsSync_def)

lemma tryRemove_throws:
  "p \<in> fs s \<Longrightarrow> out \<noteq> RmOk \<Longrightarrow> \<exists>e s1. tryRemove out p s = (Some e, s1)"
  by (cases out) (auto simp: tryRemove_def existsSync_def rmSync_def)

lemma tryRemove_ok:
  "p \<in> fs s \<Longrightarrow> tryRemove RmOk p s = (None, s\<lparr>fs := rmTree p (fs s), effects := effects s @ [FsRm p]\<rparr>)"
  by (auto simp: tryRemove_def existsSync_def rmSync_def)

declare removeFolderLoop.simps [simp del]

lemma loop_success:
  "p \<in> fs s \<Longrightarrow> int (a + k) < M \<Longrightarrow> (\<forall>i<k. rm (a + i) \<noteq> RmOk) \<Longrightarrow> rm (a + k) = RmOk \<Longrightarrow>
   fst (removeFolderLoop rm p M d a s) = True \<and>
   effects (snd (removeFolderLoop rm p M d a s)) =
     effects s @ concat (replicate k [FsRm p, Sleep d]) @ [FsRm p] \<and>
   p \<notin> fs (snd (removeFolderLoop rm p M d a s))"
proof (induction k arbitrary: a s)
  case 0
  then show ?case
    by (subst (1 2 3) removeFolderLoop.simps) (simp add: tryRemove_ok rmTree_def)
next
  case (Suc k)
  from Suc.prems have thr: "rm a \<noteq> RmOk" by (metis add.right_neutral zero_less_Suc)
  from tryRemove_throws [OF Suc.prems(1) thr] obtain e s1
    where t: "tryRemove (rm a) p s = (Some e, s1)" by blast
  from tryRemove_Some [OF t] have s1: "p \<in> fs s1" "effects s1 = effects s @ [FsRm p]" by simp_all
  have lt: "int a < M" "\<not> int (Suc a) \<ge> M" using Suc.prems(2) by simp_all
  have step: "removeFolderLoop rm p M d a s = removeFolderLoop rm p M d (Suc a) (delay d s1)"
    using lt by (subst removeFolderLoop.simps) (simp add: t)
  have ih: "fst (removeFolderLoop rm p M d (Suc a) (delay d s1)) = True \<and>
   effects (snd (removeFolderLoop rm p M d (Suc a) (delay d s1))) =
     effects (delay d s1) @ concat (replicate k [FsRm p, Sleep d]) @ [FsRm p] \<and>
   p \<notin> fs (snd (removeFolderLoop rm p M d (Suc a) (delay d s1)))"
    apply (rule Suc.IH)
    using Suc.prems s1 by (auto simp: delay_def)
  show ?case unfolding step using ih s1 by (simp add: delay_def)
qed

lemma loop_fail:
  "p \<in> fs s \<Longrightarrow> int a < M \<Longrightarrow> (\<forall>i. a \<le> i \<and> int i < M \<longrightarrow> rm i \<noteq> RmOk) \<Longrightarrow>
   fst (removeFolderLoop rm p M d a s) = False \<and>
   effects (snd (removeFolderLoop rm p M d a s)) =
     effects s @ concat (replicate (nat M - Suc a) [FsRm p, Sleep d]) @ [FsRm p] \<and>
   p \<in> fs (snd (removeFolderLoop rm p M d a s))"
proof (induction "nat M - Suc a" arbitrary: a s)
  case 0
  then have last: "int (Suc a) \<ge> M" by linarith
  from 0 have thr: "rm a \<noteq> RmOk" by simp
  from tryRemove_throws [OF 0(2) thr] obtain e s1
    where t: "tryRemove (rm a) p s = (Some e, s1)" by blast
  from tryRemove_Some [OF t] have s1: "p \<in> fs s1" "effects s1 = effects s @ [FsRm p]" by simp_all
  have "removeFolderLoop rm p M d a s = (False, s1)"
    using 0 last by (subst removeFolderLoop.simps) (simp add: t)
  then show ?case using s1 0 by simp
next
  case (Suc n)
  then have more: "\<not> int (Suc a) \<ge> M" by linarith
  from Suc have thr: "rm a \<noteq> RmOk" by simp
  from tryRemove_throws [OF Suc(3) thr] obtain e s1
    where t: "tryRemove (rm a) p s = (Some e, s1)" by blast
  from tryRemove_Some [OF t] have s1: "p \<in> fs s1" "effects s1 = effects s @ [FsRm p]" by simp_all
  have step: "removeFolderLoop rm p M d a s = removeFolderLoop rm p M d (Suc a) (delay d s1)"
    using Suc(4) more by (subst removeFolderLoop.simps) (simp add: t)
  have ih: "fst (removeFolderLoop rm p M d (Suc a) (delay d s1)) = False \<and>
   effects (snd (removeFolderLoop rm p M d (Suc a) (delay d s1))) =
     effects (delay d s1) @ concat (replicate (nat M - Suc (Suc a)) [FsRm p, Sleep d]) @ [FsRm p] \<and>
   p \<in> fs (snd (removeFolderLoop rm p M d (Suc a) (delay d s1)))"
    apply (rule Suc(1))
    using Suc s1 more by (auto simp: delay_def)
  have rep: "nat M - Suc a = Suc (nat M - Suc (Suc a))" using Suc(2) by linarith
  show ?case unfolding step using ih s1 by (simp add: delay_def rep)
qed

lemma loop_absent:
  "p \<notin> fs s \<Longrightarrow> int a < M \<Longrightarrow> removeFolderLoop rm p M d a s = (True, s)"
  by (subst removeFolderLoop.simps) (simp add: tryRemove_absent)

lemma loop_none: "\<not> int a < M \<Longrightarrow> removeFolderLoop rm p M d a s = (False, s)"
  by (subst removeFolderLoop.simps) simp

text \<open>
  C6. \<open>removeFolderWithRetries(path, maxRetries, delayMs)\<close> (defaults 5 and 1000) calls
  the recursive forced removal; after a failed call it sleeps \<open>delayMs\<close> and calls
  again, and it makes at most \<open>maxRetries\<close> calls. When the calls at counter values
  below \<open>k\<close> fail and the one at \<open>k\<close> does not, it returns \<open>true\<close> after exactly
  \<open>k\<close> failed calls, each followed by one sleep, and one last call, with nothing after
  it. When every call fails it returns \<open>false\<close> after exactly \<open>maxRetries\<close> calls with
  a sleep between consecutive calls. The function returns a boolean in every case: no
  exception leaves it.
\<close>

theorem removeFolderWithRetries_bounded:
  "(\<forall>k. int k < maxRetries \<and> (\<forall>i<k. p \<in> fs s \<and> rm i \<noteq> RmOk) \<and> \<not> (p \<in> fs s \<and> rm k \<noteq> RmOk) \<longrightarrow>
      fst (removeFolderWithRetries rm p maxRetries delayMs s) = True \<and>
      effects (snd (removeFolderWithRetries rm p maxRetries delayMs s)) =
        effects s @ concat (replicate k [FsRm p, Sleep delayMs]) @ (if p \<in> fs s then [FsRm p] else []))
   \<and> ((\<forall>i. int i < maxRetries \<longrightarrow> p \<in> fs s \<and> rm i \<noteq> RmOk) \<longrightarrow>
      fst (removeFolderWithRetries rm p maxRetries delayMs s) = False \<and>
      effects (snd (removeFolderWithRetries rm p maxRetries delayMs s)) =
        effects s @ (if 0 < maxRetries
                     then concat (replicate (nat maxRetries - 1) [FsRm p, Sleep delayMs]) @ [FsRm p]
                     else []))"
proof (intro conjI allI impI)
  fix k
  assume a: "int k < maxRetries \<and> (\<forall>i<k. p \<in> fs s \<and> rm i \<noteq> RmOk) \<and> \<not> (p \<in> fs s \<and> rm k \<noteq> RmOk)"
  show "fst (removeFolderWithRetries rm p maxRetries delayMs s) = True"
  proof (cases "p \<in> fs s")
    case True
    with a loop_success [of p s 0 k maxRetries rm delayMs] show ?thesis
      by (simp add: removeFolderWithRetries_def)
  next
    case False
    with a have "0 < maxRetries" by linarith
    with False show ?thesis by (simp add: removeFolderWithRetries_def loop_absent)
  qed
  show "effects (snd (removeFolderWithRetries rm p maxRetries delayMs s)) =
        effects s @ concat (replicate k [FsRm p, Sleep delayMs]) @ (if p \<in> fs s then [FsRm p] else [])"
  proof (cases "p \<in> fs s")
    case True
    with a loop_success [of p s 0 k maxRetries rm delayMs] show ?thesis
      by (simp add: removeFolderWithRetries_def)
  next
    case False
    with a have k0: "k = 0" by (cases k) auto
    from a have "0 < maxRetries" by linarith
    with False k0 show ?thesis by (simp add: removeFolderWithRetries_def loop_absent)
  qed
next
  assume a: "\<forall>i. int i < maxRetries \<longrightarrow> p \<in> fs s \<and> rm i \<noteq> RmOk"
  show "fst (removeFolderWithRetries rm p maxRetries delayMs s) = False"
  proof (cases "0 < maxRetries")
    case True
    with a have "p \<in> fs s" by (metis of_nat_0)
    with a True loop_fail [of p s 0 maxRetries rm delayMs] show ?thesis
      by (simp add: removeFolderWithRetries_def)
  next
    case False
    then show ?thesis by (simp add: removeFolderWithRetries_def loop_none)
  qed
  show "effects (snd (removeFolderWithRetries rm p maxRetries delayMs s)) =
        effects s @ (if 0 < maxRetries
                     then concat (replicate (nat maxRetries - 1) [FsRm p, Sleep delayMs]) @ [FsRm p]
                     else [])"
  proof (cases "0 < maxRetries")
    case True
    with a have "p \<in> fs s" by (metis of_nat_0)
    with a True loop_fail [of p s 0 maxRetries rm delayMs] show ?thesis
      by (simp add: removeFolderWithRetries_def)
  next
    case False
    then show ?thesis by (simp add: removeFolderWithRetries_def loop_none)
  qed
qed

theorem removeFolderWithRetries_bounded_witness:
  "fst (removeFolderWithRetries (\<lambda>i. if i < 2 then RmThrows (Error ''EBUSY'') [] else RmOk)
          [''app'', ''x''] 5 1000 (emptyManager {[''app''], [''app'', ''x'']})) = True \<and>
   effects (snd (removeFolderWithRetries (\<lambda>i. if i < 2 then RmThrows (Error ''EBUSY'') [] else RmOk)
          [''app'', ''x''] 5 1000 (emptyManager {[''app''], [''app'', ''x'']}))) =
     [FsRm [''app'', ''x''], Sleep 1000, FsRm [''app'', ''x''], Sleep 1000, FsRm [''app'', ''x'']] \<and>
   fst (removeFolderWithRetries (\<lambda>i. RmThrows (Error ''EBUSY'') [])
          [''app'', ''x''] 5 1000 (emptyManager {[''app''], [''app'', ''x'']})) = False \<and>
   effects (snd (removeFolderWithRetries (\<lambda>i. RmThrows (Error ''EBUSY'') [])
          [''app'', ''x''] 5 1000 (emptyManager {[''app''], [''app'', ''x'']}))) =
     [FsRm [''app'', ''x''], Sleep 1000, FsRm [''app'', ''x''], Sleep 1000,
      FsRm [''app'', ''x''], Sleep 1000, FsRm [''app'', ''x''], Sleep 1000, FsRm [''app'', ''x'']]"
proof -
  let ?s = "emptyManager {[''app''], [''app'', ''x'']}"
  let ?p = "[''app'', ''x'']"
  have ex: "?p \<in> fs ?s" by (simp add: emptyManager_def)
  have e0: "effects ?s = []" by (simp add: emptyManager_def)
  have r4: "replicate 4 x = [x, x, x, x]" for x :: "effect list" by (simp add: numeral_eq_Suc)
  have r2: "replicate 2 x = [x, x]" for x :: "effect list" by (simp add: numeral_eq_Suc)
  from removeFolderWithRetries_bounded
         [of 5 ?p ?s "\<lambda>i. if i < 2 then RmThrows (Error ''EBUSY'') [] else RmOk" 1000]
  have A: "fst (removeFolderWithRetries (\<lambda>i. if i < 2 then RmThrows (Error ''EBUSY'') [] else RmOk) ?p 5 1000 ?s) = True \<and>
      effects (snd (removeFolderWithRetries (\<lambda>i. if i < 2 then RmThrows (Error ''EBUSY'') [] else RmOk) ?p 5 1000 ?s)) =
        effects ?s @ concat (replicate 2 [FsRm ?p, Sleep 1000]) @ (if ?p \<in> fs ?s then [FsRm ?p] else [])"
    using ex by (elim conjE allE [of _ 2]) simp
  from removeFolderWithRetries_bounded
         [of 5 ?p ?s "\<lambda>i. RmThrows (Error ''EBUSY'') []" 1000]
  have B: "fst (removeFolderWithRetries (\<lambda>i. RmThrows (Error ''EBUSY'') []) ?p 5 1000 ?s) = False \<and>
      effects (snd (removeFolderWithRetries (\<lambda>i. RmThrows (Error ''EBUSY'') []) ?p 5 1000 ?s)) =
        effects ?s @ concat (replicate (nat 5 - 1) [FsRm ?p, Sleep 1000]) @ [FsRm ?p]"
    using ex by simp
  show ?thesis using A B ex e0 by (simp add: r2 r4)
qed

text \<open>
  C10, as stated, fails when \<open>maxRetries\<close> is not positive: the loop body never runs
  and the function returns \<open>false\<close>, also for a folder that does not exist.
\<close>

theorem removeFolderWithRetries_missing_folder_counterexample:
  "[''app'', ''x''] \<notin> fs (emptyManager {[''app'']}) \<and>
   removeFolderWithRetries (\<lambda>i. RmOk) [''app'', ''x''] 0 1000 (emptyManager {[''app'']})
     = (False, emptyManager {[''app'']})"
  by (simp add: emptyManager_def removeFolderWithRetries_def loop_none)

text \<open>
  C10, amended. For every path that does not exist, and every \<open>maxRetries\<close> of at
  least 1 (the default is 5), \<open>removeFolderWithRetries\<close> returns \<open>true\<close> on its first
  attempt and leaves the state as it was: no removal, no retry, no sleep.
\<close>

theorem removeFolderWithRetries_missing_folder:
  "p \<notin> fs s \<Longrightarrow> 0 < maxRetries \<Longrightarrow> removeFolderWithRetries rm p maxRetries delayMs s = (True, s)"
  by (simp add: removeFolderWithRetries_def loop_absent)

theorem removeFolderWithRetries_missing_folder_witness:
  "[''app'', ''x''] \<notin> fs (emptyManager {[''app'']}) \<and> (0::int) < 5 \<and>
   removeFolderWithRetries (\<lambda>i. RmThrows (Error ''EBUSY'') []) [''app'', ''x''] 5 1000 (emptyManager {[''app'']})
     = (True, emptyManager {[''app'']})"
proof -
  have a: "[''app'', ''x''] \<notin> fs (emptyManager {[''app'']})" by (simp add: emptyManager_def)
  have b: "(0::int) < 5" by simp
  show ?thesis using a b removeFolderWithRetries_missing_folder [OF a b] by simp
qed

subsection \<open>What the operations leave alone\<close>

lemma updateInstanceStatusInDb_frame [simp]:
  "instances (updateInstanceStatusInDb i st extra s) = instances s"
  "qrCodes (updateInstanceStatusInDb i st extra s) = qrCodes s"
  "fs (updateInstanceStatusInDb i st extra s) = fs s"
  "heap (updateInstanceStatusInDb i st extra s) = heap s"
  "nextRef (updateInstanceStatusInDb i st extra s) = nextRef s"
  by (simp_all add: updateInstanceStatusInDb_def)

lemma deregister_frame [simp]:
  "instances (deregister i s) = (instances s)(i := None)"
  "qrCodes (deregister i s) = (qrCodes s)(i := None)"
  "fs (deregister i s) = fs s"
  "heap (deregister i s) = heap s"
  "effects (deregister i s) = effects s"
  by (simp_all add: deregister_def)

lemma on_event_fs [simp]: "fs (on_event i r ev s) = fs s"
  by (cases ev) simp_all

lemma run_step_fs [simp]: "fs (run_step r st s) = fs s"
  by (cases st) simp_all

lemma run_steps_fs [simp]: "fs (run_steps r sts s) = fs s"
  by (induction sts arbitrary: s) simp_all

lemma tryRemove_frame:
  "tryRemove out p s = (e, s1) \<Longrightarrow>
     instances s1 = instances s \<and> qrCodes s1 = qrCodes s \<and> heap s1 = heap s"
  by (auto simp: tryRemove_def rmSync_def split: if_splits rm_outcome.splits)

lemma removeFolderLoop_frame:
  "instances (snd (removeFolderLoop rm p M d a s)) = instances s \<and>
   qrCodes (snd (removeFolderLoop rm p M d a s)) = qrCodes s \<and>
   heap (snd (removeFolderLoop rm p M d a s)) = heap s"
proof (induction rm p M d a s rule: removeFolderLoop.induct)
  case (1 rm p M d a s)
  show ?case
  proof (cases "int a < M")
    case False
    then show ?thesis by (simp add: loop_none)
  next
    case True
    obtain e s1 where t: "tryRemove (rm a) p s = (e, s1)" by (cases "tryRemove (rm a) p s")
    note fr = tryRemove_frame [OF t]
    show ?thesis
    proof (cases e)
      case None
      with t True fr show ?thesis by (subst (1 2 3) removeFolderLoop.simps) simp
    next
      case (Some err)
      show ?thesis
      proof (cases "int (Suc a) \<ge> M")
        case last: True
        with t True Some fr show ?thesis by (subst (1 2 3) removeFolderLoop.simps) simp
      next
        case more: False
        have step: "removeFolderLoop rm p M d a s = removeFolderLoop rm p M d (Suc a) (delay d s1)"
          using True more t Some by (subst removeFolderLoop.simps) simp
        from "1.IH" [OF True t [symmetric] Some more]
        show ?thesis unfolding step using fr by (simp add: delay_def)
      qed
    qed
  qed
qed

lemma removeFolderWithRetries_frame [simp]:
  "instances (snd (removeFolderWithRetries rm p M d s)) = instances s"
  "qrCodes (snd (removeFolderWithRetries rm p M d s)) = qrCodes s"
  "heap (snd (removeFolderWithRetries rm p M d s)) = heap s"
  by (simp_all add: removeFolderWithRetries_def removeFolderLoop_frame)

subsection \<open>resetInstance\<close>

text \<open>
  C5. For every id, after the function queued by \<open>resetInstance(id)\<close> has run, the id is
  absent from the Registry \<open>instances\<close> and from \<open>qrCodes\<close>: whatever
  \<open>client.destroy()\<close> emitted and whether or not it threw, whether or not the id was
  registered when the reset ran, and whatever the removal of the folder and the
  \<open>pkill\<close> did.
\<close>

theorem resetOp_deregisters:
  "instances (snd (resetOp appRoot i destroy rm pkill s)) i = None \<and>
   qrCodes (snd (resetOp appRoot i destroy rm pkill s)) i = None"
  by (simp add: resetOp_def execSync_def client_destroy_def Let_def case_prod_beta
           split: option.split)

text \<open>
  C9. For every id the promise returned by \<open>resetInstance(id)\<close> is fulfilled, never
  rejected, and its value is \<open>undefined\<close>: the same for a registered and for an
  unknown id, for a \<open>destroy()\<close> that throws, for a removal that uses up its retries
  and for a \<open>pkill\<close> that fails.
\<close>

theorem resetInstance_fulfils_undefined:
  "fst (runEntry (resetOp appRoot i destroy rm pkill) s) = Fulfilled JUndefined"
  by (simp add: runEntry_def resetOp_def settle_def execSync_def Let_def case_prod_beta)

subsection \<open>The profile directory and the session directory\<close>

lemma tryRemove_outside:
  "tryRemove out p s = (e, s1) \<Longrightarrow> \<not> prefix p q \<Longrightarrow> (q \<in> fs s1) = (q \<in> fs s)"
  by (auto simp: tryRemove_def rmSync_def rmTree_def rmPartial_def
           split: if_splits rm_outcome.splits)

lemma removeFolderLoop_outside:
  "\<not> prefix p q \<Longrightarrow> (q \<in> fs (snd (removeFolderLoop rm p M d a s))) = (q \<in> fs s)"
proof (induction rm p M d a s rule: removeFolderLoop.induct)
  case (1 rm p M d a s)
  show ?case
  proof (cases "int a < M")
    case False
    then show ?thesis by (simp add: loop_none)
  next
    case True
    obtain e s1 where t: "tryRemove (rm a) p s = (e, s1)" by (cases "tryRemove (rm a) p s")
    note fr = tryRemove_outside [OF t "1.prems"]
    show ?thesis
    proof (cases e)
      case None
      with t True fr show ?thesis by (subst removeFolderLoop.simps) simp
    next
      case (Some err)
      show ?thesis
      proof (cases "int (Suc a) \<ge> M")
        case last: True
        with t True Some fr show ?thesis by (subst removeFolderLoop.simps) simp
      next
        case more: False
        have step: "removeFolderLoop rm p M d a s = removeFolderLoop rm p M d (Suc a) (delay d s1)"
          using True more t Some by (subst removeFolderLoop.simps) simp
        from "1.IH" [OF True t [symmetric] Some more "1.prems"]
        show ?thesis unfolding step using fr by (simp add: delay_def)
      qed
    qed
  qed
qed

lemma removeFolderWithRetries_gone:
  assumes "k < nat M" "rm k = RmOk"
  shows "p \<notin> fs (snd (removeFolderWithRetries rm p M d s))"
proof (cases "p \<in> fs s")
  case False
  from assms have "0 < M" by linarith
  with False show ?thesis by (simp add: removeFolderWithRetries_def loop_absent)
next
  case True
  define j where "j = (LEAST n. rm n = RmOk)"
  have j: "rm j = RmOk" unfolding j_def using assms(2) by (rule LeastI)
  have jk: "j \<le> k" unfolding j_def using assms(2) by (rule Least_le)
  have before: "\<forall>n<j. rm (0 + n) \<noteq> RmOk" unfolding j_def using not_less_Least by auto
  have "int (0 + j) < M" using jk assms(1) by linarith
  from loop_success [OF True this before] j show ?thesis
    by (simp add: removeFolderWithRetries_def)
qed

lemma removeFolderWithRetries_stays:
  assumes "p \<in> fs s" "\<forall>k. int k < M \<longrightarrow> rm k \<noteq> RmOk" "0 < M"
  shows "p \<in> fs (snd (removeFolderWithRetries rm p M d s))"
  using loop_fail [of p s 0 M rm d] assms by (simp add: removeFolderWithRetries_def)

lemma resetOp_outside:
  "\<not> prefix (path_join (CHROME_PROFILES_PATH appRoot) i) q \<Longrightarrow>
   (q \<in> fs (snd (resetOp appRoot i destroy rm pkill s))) = (q \<in> fs s)"
  by (simp add: resetOp_def execSync_def client_destroy_def Let_def case_prod_beta
        removeFolderWithRetries_def removeFolderLoop_outside split: option.split)

lemma resetOp_gone:
  "k < 5 \<Longrightarrow> rm k = RmOk \<Longrightarrow>
   path_join (CHROME_PROFILES_PATH appRoot) i \<notin> fs (snd (resetOp appRoot i destroy rm pkill s))"
  using removeFolderWithRetries_gone [of k 5 rm]
  by (simp add: resetOp_def execSync_def Let_def case_prod_beta)

lemma resetOp_stays:
  "path_join (CHROME_PROFILES_PATH appRoot) i \<in> fs s \<Longrightarrow> \<forall>k<5. rm k \<noteq> RmOk \<Longrightarrow>
   path_join (CHROME_PROFILES_PATH appRoot) i \<in> fs (snd (resetOp appRoot i destroy rm pkill s))"
  by (simp add: resetOp_def execSync_def client_destroy_def Let_def case_prod_beta
        removeFolderWithRetries_stays split: option.split)

lemma paths_alice [simp]:
  "SESSIONS_PATH [''app''] = [''app'', ''.wwebjs_auth'']"
  "CHROME_PROFILES_PATH [''app''] = [''app'', ''.wwebjs_auth'', ''_chrome_profiles'']"
  "path_join (CHROME_PROFILES_PATH [''app'']) ''alice'' = [''app'', ''.wwebjs_auth'', ''_chrome_profiles'', ''alice'']"
  "authDir [''app''] ''alice'' = [''app'', ''.wwebjs_auth'', ''session-alice'']"
  by (simp_all add: SESSIONS_PATH_def CHROME_PROFILES_PATH_def authDir_def path_join_def norm_seg_def)

text \<open>
  C2, as stated, fails. The only path \<open>resetInstance(id)\<close> hands to the removal is
  \<open>path.join(CHROME_PROFILES_PATH, id)\<close>. With instance \<open>alice\<close> and a disk that holds
  both the credential directory \<open>.wwebjs_auth/session-alice\<close> and the profile directory
  \<open>.wwebjs_auth/_chrome_profiles/alice\<close>: after a reset whose removal succeeds at once
  the credential directory is still on disk, and after a reset in which all five
  removals throw the profile directory is still on disk as well.
\<close>

theorem resetOp_leaves_session_dir_counterexample:
  "authDir [''app''] ''alice'' \<in>
     fs (snd (resetOp [''app''] ''alice'' \<lparr>emitted = [], thrown = None\<rparr> (\<lambda>n. RmOk) None
          (loadModule [''app''] {[''app'', ''.wwebjs_auth'', ''session-alice''],
             [''app'', ''.wwebjs_auth'', ''_chrome_profiles'', ''alice'']}))) \<and>
   path_join (CHROME_PROFILES_PATH [''app'']) ''alice'' \<in>
     fs (snd (resetOp [''app''] ''alice'' \<lparr>emitted = [], thrown = None\<rparr>
          (\<lambda>n. RmThrows (Error ''EBUSY'') []) None
          (loadModule [''app''] {[''app'', ''.wwebjs_auth'', ''session-alice''],
             [''app'', ''.wwebjs_auth'', ''_chrome_profiles'', ''alice'']})))"
proof -
  let ?disk = "{[''app'', ''.wwebjs_auth'', ''session-alice''],
             [''app'', ''.wwebjs_auth'', ''_chrome_profiles'', ''alice'']}"
  have a: "[''app'', ''.wwebjs_auth'', ''session-alice''] \<in> fs (loadModule [''app''] ?disk)"
    by (simp add: loadModule_def ensureDir_def existsSync_def emptyManager_def)
  have b: "[''app'', ''.wwebjs_auth'', ''_chrome_profiles'', ''alice''] \<in> fs (loadModule [''app''] ?disk)"
    by (simp add: loadModule_def ensureDir_def existsSync_def emptyManager_def)
  have "\<not> prefix (path_join (CHROME_PROFILES_PATH [''app'']) ''alice'') (authDir [''app''] ''alice'')"
    by (simp add: path_join_def norm_seg_def)
  from resetOp_outside [OF this] a
  have 1: "authDir [''app''] ''alice'' \<in>
     fs (snd (resetOp [''app''] ''alice'' \<lparr>emitted = [], thrown = None\<rparr> (\<lambda>n. RmOk) None
          (loadModule [''app''] ?disk)))" by simp
  have 2: "path_join (CHROME_PROFILES_PATH [''app'']) ''alice'' \<in>
     fs (snd (resetOp [''app''] ''alice'' \<lparr>emitted = [], thrown = None\<rparr>
          (\<lambda>n. RmThrows (Error ''EBUSY'') []) None (loadModule [''app''] ?disk)))"
    by (rule resetOp_stays) (use b in \<open>simp_all add: path_join_def norm_seg_def\<close>)
  from 1 2 show ?thesis by blast
qed

text \<open>
  C2, amended. For every id, \<open>resetInstance(id)\<close> applies the bounded-retry removal
  (5 attempts, 1000 ms apart) to the profile cache subdirectory
  \<open>path.join(CHROME_PROFILES_PATH, id)\<close> only. Nothing outside that subdirectory is
  removed or created, so the per-id credential directory stays on disk. The profile
  subdirectory is absent after the reset when one of the five attempts does not
  throw, and it is still present when it was there and all five attempts throw.
\<close>

theorem resetOp_removes_profile_dir_only:
  "(\<forall>q. \<not> prefix (path_join (CHROME_PROFILES_PATH appRoot) i) q \<longrightarrow>
        (q \<in> fs (snd (resetOp appRoot i destroy rm pkill s))) = (q \<in> fs s)) \<and>
   ((\<exists>k<5. rm k = RmOk) \<longrightarrow>
        path_join (CHROME_PROFILES_PATH appRoot) i \<notin> fs (snd (resetOp appRoot i destroy rm pkill s))) \<and>
   (path_join (CHROME_PROFILES_PATH appRoot) i \<in> fs s \<and> (\<forall>k<5. rm k \<noteq> RmOk) \<longrightarrow>
        path_join (CHROME_PROFILES_PATH appRoot) i \<in> fs (snd (resetOp appRoot i destroy rm pkill s)))"
proof (intro conjI allI impI)
  fix q
  assume "\<not> prefix (path_join (CHROME_PROFILES_PATH appRoot) i) q"
  then show "(q \<in> fs (snd (resetOp appRoot i destroy rm pkill s))) = (q \<in> fs s)"
    by (rule resetOp_outside)
next
  assume "\<exists>k<5. rm k = RmOk"
  then obtain k where "k < 5" "rm k = RmOk" by blast
  then show "path_join (CHROME_PROFILES_PATH appRoot) i \<notin> fs (snd (resetOp appRoot i destroy rm pkill s))"
    by (rule resetOp_gone)
next
  assume "path_join (CHROME_PROFILES_PATH appRoot) i \<in> fs s \<and> (\<forall>k<5. rm k \<noteq> RmOk)"
  then show "path_join (CHROME_PROFILES_PATH appRoot) i \<in> fs (snd (resetOp appRoot i destroy rm pkill s))"
    by (simp add: resetOp_stays)
qed

theorem resetOp_removes_profile_dir_only_witness:
  "authDir [''app''] ''alice'' \<in>
     fs (snd (resetOp [''app''] ''alice'' \<lparr>emitted = [], thrown = Some (Error ''closed'')\<rparr> (\<lambda>n. RmOk) None
          (loadModule [''app''] {[''app'', ''.wwebjs_auth'', ''session-alice''],
             [''app'', ''.wwebjs_auth'', ''_chrome_profiles'', ''alice'']}))) \<and>
   path_join (CHROME_PROFILES_PATH [''app'']) ''alice'' \<notin>
     fs (snd (resetOp [''app''] ''alice'' \<lparr>emitted = [], thrown = Some (Error ''closed'')\<rparr> (\<lambda>n. RmOk) None
          (loadModule [''app''] {[''app'', ''.wwebjs_auth'', ''session-alice''],
             [''app'', ''.wwebjs_auth'', ''_chrome_profiles'', ''alice'']})))"
proof -
  let ?disk = "{[''app'', ''.wwebjs_auth'', ''session-alice''],
             [''app'', ''.wwebjs_auth'', ''_chrome_profiles'', ''alice'']}"
  let ?s = "loadModule [''app''] ?disk"
  note inst = resetOp_removes_profile_dir_only
    [of "[''app'']" "''alice''" "\<lparr>emitted = [], thrown = Some (Error ''closed'')\<rparr>" "\<lambda>n. RmOk" None ?s]
  have a: "authDir [''app''] ''alice'' \<in> fs ?s"
    by (simp add: loadModule_def ensureDir_def existsSync_def emptyManager_def)
  have np: "\<not> prefix (path_join (CHROME_PROFILES_PATH [''app'']) ''alice'') (authDir [''app''] ''alice'')"
    by (simp add: path_join_def norm_seg_def)
  have ex: "\<exists>k<5. (\<lambda>n::nat. RmOk) k = RmOk" by (intro exI [of _ 0]) simp
  from inst np a ex show ?thesis by blast
qed

subsection \<open>createInstance\<close>

lemma createInstance_registers:
  "fst (createInstance i ctor init s) = Inr r \<Longrightarrow>
     instances (snd (createInstance i ctor init s)) i = Some r"
  by (auto simp: createInstance_def client_initialize_def Let_def case_prod_beta split: option.splits)

text \<open>
  C3. For every id, a call of \<open>createInstance(id)\<close> made while the Registry holds a
  handle for the id returns that handle and leaves the whole state as it was: the
  Registry is not modified and no \<open>initialize()\<close> is started (the effect log is part
  of the state). In particular a second call right after a first one returns the
  handle the first call returned. The Registry is a map, so it holds at most one
  handle per id.
\<close>

theorem createInstance_idempotent:
  "(instances s i = Some r \<longrightarrow> createInstance i ctor init s = (Inr r, s)) \<and>
   (fst (createInstance i ctor1 init1 s) = Inr r1 \<longrightarrow>
      createInstance i ctor2 init2 (snd (createInstance i ctor1 init1 s)) =
        (Inr r1, snd (createInstance i ctor1 init1 s)))"
proof (intro conjI impI)
  assume "instances s i = Some r"
  then show "createInstance i ctor init s = (Inr r, s)" by (simp add: createInstance_def)
next
  assume "fst (createInstance i ctor1 init1 s) = Inr r1"
  from createInstance_registers [OF this]
  show "createInstance i ctor2 init2 (snd (createInstance i ctor1 init1 s)) =
        (Inr r1, snd (createInstance i ctor1 init1 s))"
    by (simp add: createInstance_def)
qed

theorem createInstance_idempotent_witness:
  "fst (createInstance ''alice'' None \<lparr>emitted = [Emit (Qr ''qr1'')], thrown = None\<rparr>
          (loadModule [''app''] {})) = Inr 0 \<and>
   createInstance ''alice'' None \<lparr>emitted = [], thrown = None\<rparr>
      (snd (createInstance ''alice'' None \<lparr>emitted = [Emit (Qr ''qr1'')], thrown = None\<rparr>
          (loadModule [''app''] {}))) =
     (Inr 0, snd (createInstance ''alice'' None \<lparr>emitted = [Emit (Qr ''qr1'')], thrown = None\<rparr>
          (loadModule [''app''] {})))"
proof -
  have a: "fst (createInstance ''alice'' None \<lparr>emitted = [Emit (Qr ''qr1'')], thrown = None\<rparr>
          (loadModule [''app''] {})) = Inr 0"
    by (simp add: createInstance_def loadModule_def ensureDir_def emptyManager_def
          client_initialize_def Let_def)
  from a createInstance_idempotent
    [of "loadModule [''app''] {}" "''alice''" 0 None "\<lparr>emitted = [Emit (Qr ''qr1'')], thrown = None\<rparr>"
        None "\<lparr>emitted = [Emit (Qr ''qr1'')], thrown = None\<rparr>" 0 None "\<lparr>emitted = [], thrown = None\<rparr>"]
  show ?thesis by blast
qed

text \<open>
  C1. When \<open>client.initialize()\<close> throws, the id should be absent from \<open>instances\<close>
  and from \<open>qrCodes\<close> once \<open>createInstance\<close> has returned, and the caller should see
  no exception. The \<open>catch\<close> clause does delete both entries, and no exception leaves
  the function, but the statement after the \<open>try\<close>, \<open>instances.set(id, client)\<close>, is
  not guarded: it runs on this path too and registers the client whose initialization
  failed. What the code does for an id that was not registered:
\<close>

theorem createInstance_init_throws_registered:
  "instances s i = None \<Longrightarrow> thrown init = Some e \<Longrightarrow>
     fst (createInstance i None init s) = Inr (nextRef s) \<and>
     instances (snd (createInstance i None init s)) i = Some (nextRef s) \<and>
     qrCodes (snd (createInstance i None init s)) i = None"
  by (simp add: createInstance_def client_initialize_def Let_def)

theorem createInstance_init_throws_registered_witness:
  "fst (createInstance ''alice'' None \<lparr>emitted = [], thrown = Some (Error ''Failed to launch the browser process'')\<rparr>
          (loadModule [''app''] {})) = Inr 0 \<and>
   instances (snd (createInstance ''alice'' None
          \<lparr>emitted = [], thrown = Some (Error ''Failed to launch the browser process'')\<rparr>
          (loadModule [''app''] {}))) ''alice'' = Some 0 \<and>
   qrCodes (snd (createInstance ''alice'' None
          \<lparr>emitted = [], thrown = Some (Error ''Failed to launch the browser process'')\<rparr>
          (loadModule [''app''] {}))) ''alice'' = None"
proof -
  have a: "instances (loadModule [''app''] {}) ''alice'' = None"
    by (simp add: loadModule_def ensureDir_def emptyManager_def)
  have b: "thrown \<lparr>emitted = [], thrown = Some (Error ''Failed to launch the browser process'')\<rparr> =
             Some (Error ''Failed to launch the browser process'')" by simp
  have c: "nextRef (loadModule [''app''] {}) = 0"
    by (simp add: loadModule_def ensureDir_def emptyManager_def)
  from createInstance_init_throws_registered [OF a b] c show ?thesis by simp
qed

subsection \<open>getStatus\<close>

text \<open>
  C7. For a registered id with no saved session, \<open>getStatus(id)\<close> should be \<open>qr\<close>
  right after the event \<open>qr\<close> and \<open>ready\<close> after the event \<open>ready\<close>. The listeners
  send these statuses to the database only; \<open>getStatus\<close> reads \<open>client.info?.status\<close>,
  which no listener writes. While the client has no \<open>info\<close> the answer after \<open>qr\<close> is
  \<open>undefined\<close>; after \<open>ready\<close> it is whatever \<open>status\<close> field the library put into
  \<open>info\<close>, and the listener of \<open>ready\<close> ends in a ReferenceError.
\<close>

theorem getStatus_not_tracked:
  "instances s i = Some r \<Longrightarrow> info (heap s r) = None \<Longrightarrow>
     getStatus i (run_step r (Emit (Qr qr)) s) = JUndefined \<and>
     getStatus i (run_steps r [SetInfo (Some ci), Emit Ready] s) =
       (case status ci of None \<Rightarrow> JUndefined | Some st \<Rightarrow> JString st) \<and>
     last (effects (run_steps r [SetInfo (Some ci), Emit Ready] s)) =
       UnhandledRejection (Error ''getInfo is not defined'')"
  by (simp add: getStatus_def)

theorem getStatus_not_tracked_witness:
  "getStatus ''alice'' (run_step 0 (Emit (Qr ''qr1''))
      (snd (createInstance ''alice'' None \<lparr>emitted = [], thrown = None\<rparr> (loadModule [''app''] {}))))
     = JUndefined \<and>
   getStatus ''alice'' (run_steps 0
      [SetInfo (Some \<lparr>wid = Some ''15550001@c.us'', number = None, pushname = Some ''Alice'',
                       profile_pic = None, status = None\<rparr>), Emit Ready]
      (snd (createInstance ''alice'' None \<lparr>emitted = [], thrown = None\<rparr> (loadModule [''app''] {}))))
     = JUndefined"
proof -
  let ?s = "snd (createInstance ''alice'' None \<lparr>emitted = [], thrown = None\<rparr> (loadModule [''app''] {}))"
  have a: "instances ?s ''alice'' = Some 0"
    by (simp add: createInstance_def loadModule_def ensureDir_def emptyManager_def
          client_initialize_def Let_def)
  have b: "info (heap ?s 0) = None"
    by (simp add: createInstance_def loadModule_def ensureDir_def emptyManager_def
          client_initialize_def Let_def newClient_def)
  from getStatus_not_tracked [OF a b, of "''qr1''"
     "\<lparr>wid = Some ''15550001@c.us'', number = None, pushname = Some ''Alice'',
                       profile_pic = None, status = None\<rparr>"]
  show ?thesis by simp
qed

subsection \<open>Admission\<close>

text \<open>
  C8, as stated, fails at the threshold: with a CPU reading of exactly 80 % and the
  thresholds 80/80 the check answers \<open>true\<close>, although the reading is not under the
  threshold.
\<close>

theorem canCreateInstance_at_threshold_counterexample:
  "canCreateInstance (80 / 100) 16000 8000 80 80 = True \<and> \<not> ((80 / 100) * 100 < (80::real))"
  by (simp add: canCreateInstance_def ramOverLimit_def)

text \<open>
  C8, amended. With a total memory other than zero, \<open>canCreateInstance(maxCpu,
  maxRamPercent)\<close> returns \<open>true\<close> exactly when the CPU percentage is at most \<open>maxCpu\<close>
  and the RAM percentage \<open>(total - free) / total * 100\<close> is at most \<open>maxRamPercent\<close>: a
  reading equal to its threshold is admitted. With the thresholds 80/80 it returns
  \<open>false\<close> for CPU 90 %, RAM 50 %, and \<open>true\<close> for CPU 50 %, RAM 50 %.
\<close>

theorem canCreateInstance_iff:
  "totalMem \<noteq> 0 \<Longrightarrow>
   canCreateInstance cpuPercent totalMem freeMem maxCpu maxRamPercent =
     (cpuPercent * 100 \<le> maxCpu \<and> ((totalMem - freeMem) / totalMem) * 100 \<le> maxRamPercent)"
  by (auto simp: canCreateInstance_def ramOverLimit_def)

theorem canCreateInstance_iff_witness:
  "canCreateInstance (90 / 100) 16000 8000 80 80 = False \<and>
   canCreateInstance (50 / 100) 16000 8000 80 80 = True"
  using canCreateInstance_iff [of 16000 "90 / 100" 8000 80 80]
        canCreateInstance_iff [of 16000 "50 / 100" 8000 80 80]
  by simp

subsection \<open>Order and cooldown of the queue\<close>

lemma cooled_update [simp]:
  "cooled (q\<lparr>instanceQueue := iq\<rparr>) = cooled q"
  "cooled (q\<lparr>queueRunning := qr\<rparr>) = cooled q"
  "cooled (q\<lparr>loops := ls\<rparr>) = cooled q"
  "cooled (q\<lparr>submitted := n\<rparr>) = cooled q"
  "cooled (q\<lparr>clock := c\<rparr>) = cooled q"
  "cooled (q\<lparr>begun := bg\<rparr>) = cooled q"
  by (simp_all add: cooled_def fun_eq_iff)

lemma nextUp_update [simp]:
  "nextUp (q\<lparr>queueRunning := qr\<rparr>) = nextUp q"
  "nextUp (q\<lparr>loops := ls\<rparr>) = nextUp q"
  "nextUp (q\<lparr>clock := c\<rparr>) = nextUp q"
  "nextUp (q\<lparr>begun := bg\<rparr>) = nextUp q"
  "nextUp (q\<lparr>settled := st\<rparr>) = nextUp q"
  by (simp_all add: nextUp_def)

lemma cooled_mono: "cooled q n t \<Longrightarrow> t \<le> t' \<Longrightarrow> cooled q n t'"
  unfolding cooled_def by (meson le_trans)

lemma cooled_less: "cooled q n t \<Longrightarrow> m \<le> n \<Longrightarrow> cooled q m t"
  unfolding cooled_def by auto

lemma qinv_initial: "qinv initialQueue"
  by (simp add: qinv_def initialQueue_def nextUp_def cooled_def)

lemma loops_cases:
  assumes "loop_inv q ls"
  obtains "ls = []" | e where "ls = [AwaitFn e]" | t where "ls = [AwaitDelay t]"
  using assms by (cases "(q, ls)" rule: loop_inv.cases) auto

lemma qinv_elapse: "qinv q \<Longrightarrow> qinv (q\<lparr>clock := clock q + d\<rparr>)"
proof -
  assume a: "qinv q"
  then have li: "loop_inv q (loops q)" by (simp add: qinv_def)
  have c: "cooled (q\<lparr>clock := clock q + d\<rparr>) n t = cooled q n t" for n t
    by (simp add: cooled_def)
  have n: "nextUp (q\<lparr>clock := clock q + d\<rparr>) = nextUp q" by (simp add: nextUp_def)
  have "loop_inv (q\<lparr>clock := clock q + d\<rparr>) (loops q)"
    using li by (rule loops_cases) (use li in \<open>auto simp: c n intro: cooled_mono\<close>)
  moreover have "\<forall>b tb. begun q b = Some tb \<longrightarrow> tb \<le> clock q + d \<and> cooled q b tb"
    using a by (simp add: qinv_def) (meson trans_le_add1)
  ultimately show ?thesis using a by (simp add: qinv_def c n)
qed

lemma qinv_pop:
  assumes inv: "length (instanceQueue q) \<le> submitted q"
      "instanceQueue q = [nextUp q ..< submitted q]"
      "\<forall>b. (begun q b \<noteq> None) = (b < nextUp q)"
      "\<forall>b tb. begun q b = Some tb \<longrightarrow> tb \<le> clock q \<and> cooled q b tb"
    and idle: "loops q = []" "queueRunning q" "cooled q (nextUp q) (clock q)"
  shows "qinv (loop_head q)"
proof (cases "instanceQueue q")
  case Nil
  then have "loop_head q = q\<lparr>queueRunning := False\<rparr>" by (simp add: loop_head_def)
  moreover have "cooled (q\<lparr>queueRunning := False\<rparr>) n t = cooled q n t" for n t
    by (simp add: cooled_def)
  moreover have "nextUp (q\<lparr>queueRunning := False\<rparr>) = nextUp q" by (simp add: nextUp_def)
  ultimately show ?thesis using inv idle Nil by (simp add: qinv_def)
next
  case (Cons e rest)
  let ?q = "q\<lparr>instanceQueue := rest, begun := (begun q)(e \<mapsto> clock q), loops := loops q @ [AwaitFn e]\<rparr>"
  have lh: "loop_head q = ?q" using Cons by (simp add: loop_head_def)
  from inv(2) Cons have "[nextUp q ..< submitted q] = e # rest" by simp
  then have e: "e = nextUp q" and rest: "rest = [Suc (nextUp q) ..< submitted q]"
    and lt: "nextUp q < submitted q"
    by (auto simp: upt_eq_Cons_conv)
  have len: "length rest = submitted q - Suc (nextUp q)" using rest by simp
  have n: "nextUp ?q = Suc (nextUp q)" using len lt by (simp add: nextUp_def)
  have c: "cooled ?q m t = cooled q m t" for m t by (simp add: cooled_def)
  have 1: "length (instanceQueue ?q) \<le> submitted ?q" using len by simp
  have 2: "instanceQueue ?q = [nextUp ?q ..< submitted ?q]" using rest n by simp
  have 3: "\<forall>b. (begun ?q b \<noteq> None) = (b < nextUp ?q)"
    using inv(3) e n by (auto simp: less_Suc_eq)
  have 4: "\<forall>b tb. begun ?q b = Some tb \<longrightarrow> tb \<le> clock ?q \<and> cooled ?q b tb"
    using inv(4) idle(3) e by (auto simp: c)
  have 5: "loop_inv ?q (loops ?q)" using idle n e by simp
  show ?thesis unfolding lh qinv_def using 1 2 3 4 5 by blast
qed

lemma qinv_enqueue: "qinv q \<Longrightarrow> qinv (enqueue q)"
proof -
  assume a: "qinv q"
  let ?p = "q\<lparr>instanceQueue := instanceQueue q @ [submitted q], submitted := Suc (submitted q)\<rparr>"
  from a have len: "length (instanceQueue q) \<le> submitted q"
    and qu: "instanceQueue q = [nextUp q ..< submitted q]"
    and bg: "\<forall>b. (begun q b \<noteq> None) = (b < nextUp q)"
    and tm: "\<forall>b tb. begun q b = Some tb \<longrightarrow> tb \<le> clock q \<and> cooled q b tb"
    and li: "loop_inv q (loops q)"
    by (simp_all add: qinv_def)
  have n: "nextUp ?p = nextUp q" using len by (simp add: nextUp_def)
  have c: "cooled ?p m t = cooled q m t" for m t by (simp add: cooled_def)
  have le: "nextUp q \<le> submitted q" by (simp add: nextUp_def)
  have 1: "length (instanceQueue ?p) \<le> submitted ?p" using len by simp
  have 2: "instanceQueue ?p = [nextUp ?p ..< submitted ?p]"
    using qu le n by simp
  have 3: "\<forall>b. (begun ?p b \<noteq> None) = (b < nextUp ?p)" using bg n by simp
  have 4: "\<forall>b tb. begun ?p b = Some tb \<longrightarrow> tb \<le> clock ?p \<and> cooled ?p b tb"
    using tm by (simp add: c)
  show ?thesis
  proof (cases "queueRunning q")
    case True
    then have eq: "enqueue q = ?p" by (simp add: enqueue_def processQueue_def)
    have "loop_inv ?p (loops ?p)"
      using li by (rule loops_cases) (use li True n in \<open>auto simp: c\<close>)
    with 1 2 3 4 show ?thesis unfolding eq qinv_def by blast
  next
    case False
    with li have "loops q = [] \<and> cooled q (nextUp q) (clock q)"
      by (cases "(q, loops q)" rule: loop_inv.cases) auto
    then have idle: "loops q = []" "cooled q (nextUp q) (clock q)" by simp_all
    let ?r = "?p\<lparr>queueRunning := True\<rparr>"
    have eq: "enqueue q = loop_head ?r" using False by (simp add: enqueue_def processQueue_def)
    have nr: "nextUp ?r = nextUp q" using n by (simp add: nextUp_def)
    have cr: "cooled ?r m t = cooled q m t" for m t by (simp add: cooled_def)
    show ?thesis unfolding eq
    proof (rule qinv_pop)
      show "length (instanceQueue ?r) \<le> submitted ?r" using 1 by simp
      show "instanceQueue ?r = [nextUp ?r ..< submitted ?r]" using 2 n nr by simp
      show "\<forall>b. (begun ?r b \<noteq> None) = (b < nextUp ?r)" using bg nr by simp
      show "\<forall>b tb. begun ?r b = Some tb \<longrightarrow> tb \<le> clock ?r \<and> cooled ?r b tb"
        using tm by (simp add: cr)
      show "loops ?r = []" using idle by simp
      show "queueRunning ?r" by simp
      show "cooled ?r (nextUp ?r) (clock ?r)" using idle n by simp
    qed
  qed
qed

lemma qinv_settles:
  assumes a: "qinv q" and w: "AwaitFn e \<in> set (loops q)"
  shows "qinv (q\<lparr>settled := (settled q)(e \<mapsto> (out, clock q)),
                 loops := remove1 (AwaitFn e) (loops q) @ [AwaitDelay (clock q + 500)]\<rparr>)"
    (is "qinv ?p")
proof -
  from a have len: "length (instanceQueue q) \<le> submitted q"
    and qu: "instanceQueue q = [nextUp q ..< submitted q]"
    and bg: "\<forall>b. (begun q b \<noteq> None) = (b < nextUp q)"
    and tm: "\<forall>b tb. begun q b = Some tb \<longrightarrow> tb \<le> clock q \<and> cooled q b tb"
    and li: "loop_inv q (loops q)"
    by (simp_all add: qinv_def)
  from li w have "loops q = [AwaitFn e] \<and> queueRunning q \<and> nextUp q = Suc e"
    by (cases "(q, loops q)" rule: loop_inv.cases) auto
  then have ls: "loops q = [AwaitFn e]" and run: "queueRunning q" and nx: "nextUp q = Suc e"
    by simp_all
  have n: "nextUp ?p = nextUp q" by (simp add: nextUp_def)
  have keep: "cooled (q\<lparr>settled := (settled q)(e \<mapsto> (out, clock q))\<rparr>) m t"
    if "cooled q m t" "m \<le> e" for m t
    using that by (auto simp: cooled_def)
  from bg nx have "begun q e \<noteq> None" by simp
  then obtain te where te: "begun q e = Some te" by blast
  with tm have te_le: "te \<le> clock q" and before: "cooled q e te" by auto
  have all: "cooled ?p (Suc e) (clock q + 500)"
    unfolding cooled_def
  proof (intro allI impI)
    fix a assume "a < Suc e"
    show "\<exists>out ta. settled ?p a = Some (out, ta) \<and> ta + 500 \<le> clock q + 500"
    proof (cases "a = e")
      case True
      then show ?thesis by simp
    next
      case False
      with \<open>a < Suc e\<close> have "a < e" by simp
      with before obtain o' ta where "settled q a = Some (o', ta)" "ta + 500 \<le> te"
        by (auto simp: cooled_def)
      with False te_le show ?thesis by simp
    qed
  qed
  have 4: "\<forall>b tb. begun ?p b = Some tb \<longrightarrow> tb \<le> clock ?p \<and> cooled ?p b tb"
  proof (intro allI impI)
    fix b tb assume b: "begun ?p b = Some tb"
    then have b': "begun q b = Some tb" by simp
    with bg nx have "b \<le> e" by (metis less_Suc_eq_le option.distinct(1))
    with tm b' show "tb \<le> clock ?p \<and> cooled ?p b tb" by (auto intro: keep)
  qed
  have 5: "loop_inv ?p (loops ?p)" using ls run nx all by (simp add: n)
  show ?thesis unfolding qinv_def using len qu bg 4 5 by (simp add: n)
qed

lemma qinv_fires:
  assumes a: "qinv q" and w: "AwaitDelay t \<in> set (loops q)" and due: "t \<le> clock q"
  shows "qinv (loop_head (q\<lparr>loops := remove1 (AwaitDelay t) (loops q)\<rparr>))"
proof -
  let ?r = "q\<lparr>loops := remove1 (AwaitDelay t) (loops q)\<rparr>"
  from a have len: "length (instanceQueue q) \<le> submitted q"
    and qu: "instanceQueue q = [nextUp q ..< submitted q]"
    and bg: "\<forall>b. (begun q b \<noteq> None) = (b < nextUp q)"
    and tm: "\<forall>b tb. begun q b = Some tb \<longrightarrow> tb \<le> clock q \<and> cooled q b tb"
    and li: "loop_inv q (loops q)"
    by (simp_all add: qinv_def)
  from li w have "loops q = [AwaitDelay t] \<and> queueRunning q \<and> cooled q (nextUp q) t"
    by (cases "(q, loops q)" rule: loop_inv.cases) auto
  then have ls: "loops q = [AwaitDelay t]" and run: "queueRunning q"
    and co: "cooled q (nextUp q) t"
    by simp_all
  have nr: "nextUp ?r = nextUp q" by (simp add: nextUp_def)
  have cr: "cooled ?r m u = cooled q m u" for m u by (simp add: cooled_def)
  show ?thesis
  proof (rule qinv_pop)
    show "length (instanceQueue ?r) \<le> submitted ?r" using len by simp
    show "instanceQueue ?r = [nextUp ?r ..< submitted ?r]" using qu nr by simp
    show "\<forall>b. (begun ?r b \<noteq> None) = (b < nextUp ?r)" using bg nr by simp
    show "\<forall>b tb. begun ?r b = Some tb \<longrightarrow> tb \<le> clock ?r \<and> cooled ?r b tb"
      using tm by (simp add: cr)
    show "loops ?r = []" using ls by simp
    show "queueRunning ?r" using run by simp
    show "cooled ?r (nextUp ?r) (clock ?r)" using co due by (auto simp: cr nr intro: cooled_mono)
  qed
qed

lemma qinv_step: "qinv q \<Longrightarrow> step a q = Some q' \<Longrightarrow> qinv q'"
  by (cases a) (auto simp: qinv_enqueue qinv_elapse qinv_settles qinv_fires split: if_splits)

lemma qinv_run: "qinv q \<Longrightarrow> run as q = Some q' \<Longrightarrow> qinv q'"
  by (induction as arbitrary: q) (auto split: option.splits dest: qinv_step)

text \<open>
  C4. In every state the queue can reach from its initial state, at most one invocation
  of \<open>processQueue\<close> is in its loop, and for every two entries \<open>a\<close> and \<open>b\<close> submitted
  in that order: if the function of \<open>b\<close> has been called, at time \<open>tb\<close>, then the promise
  of \<open>a\<close> was settled (fulfilled or rejected) at a time \<open>ta\<close> with \<open>ta + 500 \<le> tb\<close>.
\<close>

theorem queue_order_and_cooldown:
  "run as initialQueue = Some q \<Longrightarrow>
     length (loops q) \<le> 1 \<and>
     (\<forall>a b tb. a < b \<and> begun q b = Some tb \<longrightarrow>
        (\<exists>out ta. settled q a = Some (out, ta) \<and> ta + 500 \<le> tb))"
proof -
  assume "run as initialQueue = Some q"
  with qinv_initial have inv: "qinv q" by (rule qinv_run)
  then have li: "loop_inv q (loops q)" by (simp add: qinv_def)
  have 1: "length (loops q) \<le> 1" using li by (rule loops_cases) simp_all
  have 2: "\<forall>a b tb. a < b \<and> begun q b = Some tb \<longrightarrow>
        (\<exists>out ta. settled q a = Some (out, ta) \<and> ta + 500 \<le> tb)"
    using inv by (auto simp: qinv_def cooled_def)
  from 1 2 show ?thesis by blast
qed

theorem queue_order_and_cooldown_witness:
  "begun (the (run [Submit, Submit, Elapse 30, FnSettles 0 (Inl (Error ''boom'')), Elapse 500,
                    TimerFires 530] initialQueue)) 1 = Some 530 \<and>
   length (loops (the (run [Submit, Submit, Elapse 30, FnSettles 0 (Inl (Error ''boom'')), Elapse 500,
                    TimerFires 530] initialQueue))) \<le> 1 \<and>
   (\<exists>out ta. settled (the (run [Submit, Submit, Elapse 30, FnSettles 0 (Inl (Error ''boom'')),
                    Elapse 500, TimerFires 530] initialQueue)) 0 = Some (out, ta) \<and> ta + 500 \<le> 530)"
proof -
  let ?as = "[Submit, Submit, Elapse 30, FnSettles 0 (Inl (Error ''boom'')), Elapse 500, TimerFires 530]"
  let ?q = "\<lparr>instanceQueue = [], queueRunning = True, loops = [AwaitFn 1], submitted = 2,
             clock = 530, begun = [0 \<mapsto> 0, 1 \<mapsto> 530],
             settled = [0 \<mapsto> (Rejected (Error ''boom''), 30)]\<rparr>"
  have r: "run ?as initialQueue = Some ?q"
    by (simp add: initialQueue_def enqueue_def processQueue_def loop_head_def settle_def)
  have b: "begun ?q 1 = Some 530" by simp
  from queue_order_and_cooldown [OF r] b
  have "length (loops ?q) \<le> 1 \<and> (\<exists>out ta. settled ?q 0 = Some (out, ta) \<and> ta + 500 \<le> 530)"
    by (metis zero_less_one)
  with r b show ?thesis by simp
qed

end
